theory Spec2Isabelle
  imports Complex_Main "HOL-Library.Multiset" "HOL-Library.Log_Nat"
begin

section \<open>HawkEye realtime dashboard: the log window and its aggregates\<close>

text \<open>
  The dashboard component \<^verbatim>\<open>LogStream.jsx\<close> keeps the most recent log events in a React
  state variable \<^verbatim>\<open>logs\<close> and derives three aggregates from it with \<^verbatim>\<open>useMemo\<close>:
  \<^verbatim>\<open>stats\<close>, \<^verbatim>\<open>endpoints\<close> and \<^verbatim>\<open>threatLevel\<close>. The Express service \<^verbatim>\<open>index.js\<close>
  proxies an upstream log stream to each client of \<^verbatim>\<open>/logs/cloudfront\<close>.

  JavaScript numbers are IEEE 754 binary64 values. Every arithmetic operation of the
  code is modelled as the exact operation on rationals followed by rounding to the
  nearest double, ties to the even significand, with overflow to the infinities.
\<close>

subsection \<open>JavaScript numbers\<close>

text \<open>The nearest integer, a tie going to the even one.\<close>

definition round_half_even :: "rat \<Rightarrow> int" where
  "round_half_even y =
     (let f = \<lfloor>y\<rfloor>; d = y - of_int f
      in if d < 1 / 2 then f else if 1 / 2 < d then f + 1 else if even f then f else f + 1)"

text \<open>
  The binary exponent of a positive rational: \<open>binade x = e\<close> with
  \<open>2 powi e \<le> x < 2 powi (e + 1)\<close>, computed from the bit lengths of numerator and
  denominator.
\<close>

definition binade :: "rat \<Rightarrow> int" where
  "binade x =
     (let (p, q) = quotient_of x; k = bitlen p - bitlen q
      in if 2 powi k \<le> x then k else k - 1)"

text \<open>
  The spacing of the doubles around \<open>x\<close>: 52 fraction bits below the binary exponent,
  and never finer than the subnormal spacing \<open>2 powi - 1074\<close>.
\<close>

definition ulp :: "rat \<Rightarrow> rat" where
  "ulp x = 2 powi (max (binade \<bar>x\<bar> - 52) (- 1074))"

definition nearest_double :: "rat \<Rightarrow> rat" where
  "nearest_double x = (if x = 0 then 0 else of_int (round_half_even (x / ulp x)) * ulp x)"

text \<open>
  A number value. Positive and negative zero are both \<open>Finite 0\<close>: the code never
  divides by a computed zero and prints no sign of a zero, so the two are not told apart.
\<close>

datatype jsnumber = Finite rat | PosInfinity | NegInfinity | NotANumber

text \<open>The least magnitude that rounds to an infinity, \<open>2 ^ 1024\<close>, written out.\<close>

definition overflow_threshold :: rat where
  "overflow_threshold = 179769313486231590772930519078902473361797697894230657273430081157732675805500963132708477322407536021120113879871393357658789768814416622492847430639474124377767893424865485276302219601246094119453082952085005768838150682342462881473913110540827237163350510684586298239947245938479716304835356329624224137216"

text \<open>The number value of an exact real result.\<close>

definition to_number :: "rat \<Rightarrow> jsnumber" where
  "to_number x =
     (let y = nearest_double x
      in if overflow_threshold \<le> y then PosInfinity
         else if y \<le> - overflow_threshold then NegInfinity
         else Finite y)"

text \<open>A decimal literal of the source, such as \<^verbatim>\<open>0.6\<close>, denotes the nearest double.\<close>

definition number_literal :: "rat \<Rightarrow> jsnumber" where
  "number_literal x = to_number x"

fun js_sign :: "jsnumber \<Rightarrow> int" where
  "js_sign (Finite x) = (if x < 0 then - 1 else if x = 0 then 0 else 1)"
| "js_sign PosInfinity = 1"
| "js_sign NegInfinity = - 1"
| "js_sign NotANumber = 0"

definition signed_infinity :: "int \<Rightarrow> jsnumber" where
  "signed_infinity s = (if s = 0 then NotANumber else if 0 < s then PosInfinity else NegInfinity)"

text \<open>\<^verbatim>\<open>a + b\<close> on numbers.\<close>

fun js_plus :: "jsnumber \<Rightarrow> jsnumber \<Rightarrow> jsnumber" where
  "js_plus (Finite a) (Finite b) = to_number (a + b)"
| "js_plus NotANumber b = NotANumber"
| "js_plus a NotANumber = NotANumber"
| "js_plus PosInfinity NegInfinity = NotANumber"
| "js_plus NegInfinity PosInfinity = NotANumber"
| "js_plus PosInfinity b = PosInfinity"
| "js_plus a PosInfinity = PosInfinity"
| "js_plus NegInfinity b = NegInfinity"
| "js_plus a NegInfinity = NegInfinity"

text \<open>\<^verbatim>\<open>a * b\<close>: an infinity times zero is \<^verbatim>\<open>NaN\<close>.\<close>

fun js_times :: "jsnumber \<Rightarrow> jsnumber \<Rightarrow> jsnumber" where
  "js_times (Finite a) (Finite b) = to_number (a * b)"
| "js_times NotANumber b = NotANumber"
| "js_times a NotANumber = NotANumber"
| "js_times a b = signed_infinity (js_sign a * js_sign b)"

text \<open>
  \<^verbatim>\<open>a / b\<close>: a finite number divided by zero is an infinity of its sign, zero by zero
  is \<^verbatim>\<open>NaN\<close>.
\<close>

fun js_divide :: "jsnumber \<Rightarrow> jsnumber \<Rightarrow> jsnumber" where
  "js_divide (Finite a) (Finite b) =
     (if b = 0 then signed_infinity (js_sign (Finite a)) else to_number (a / b))"
| "js_divide NotANumber b = NotANumber"
| "js_divide a NotANumber = NotANumber"
| "js_divide (Finite a) b = Finite 0"
| "js_divide a (Finite b) = signed_infinity (js_sign a * (if b < 0 then - 1 else 1))"
| "js_divide a b = NotANumber"

text \<open>\<^verbatim>\<open>a > b\<close>: false when either side is \<^verbatim>\<open>NaN\<close>.\<close>

fun js_greater :: "jsnumber \<Rightarrow> jsnumber \<Rightarrow> bool" where
  "js_greater (Finite a) (Finite b) = (b < a)"
| "js_greater NotANumber b = False"
| "js_greater a NotANumber = False"
| "js_greater PosInfinity PosInfinity = False"
| "js_greater PosInfinity b = True"
| "js_greater a PosInfinity = False"
| "js_greater NegInfinity b = False"
| "js_greater a NegInfinity = True"

text \<open>\<^verbatim>\<open>Math.min(a, b)\<close>.\<close>

definition Math_min :: "jsnumber \<Rightarrow> jsnumber \<Rightarrow> jsnumber" where
  "Math_min a b =
     (if a = NotANumber \<or> b = NotANumber then NotANumber
      else if js_greater a b then b else a)"

text \<open>
  \<^verbatim>\<open>Math.round\<close> rounds to the nearest integer, a tie towards plus infinity; the result
  is exact, since a double of magnitude \<open>2 ^ 52\<close> or more is an integer already.
\<close>

fun Math_round :: "jsnumber \<Rightarrow> jsnumber" where
  "Math_round (Finite x) = Finite (of_int \<lfloor>x + 1 / 2\<rfloor>)"
| "Math_round a = a"

subsection \<open>Events\<close>

text \<open>
  One decoded log event. The fields are the ones the components read
  (\<^verbatim>\<open>log.endpoint\<close>, \<^verbatim>\<open>log.status_code\<close>, \<^verbatim>\<open>log.latency_ms\<close>, \<^verbatim>\<open>log.timestamp\<close>).
\<close>

record log =
  endpoint :: string
  status_code :: int
  latency_ms :: jsnumber
  timestamp :: string

subsection \<open>The window: \<^verbatim>\<open>setLogs((prevLogs) => [...prevLogs.slice(-99), newLog])\<close>\<close>

text \<open>
  \<^verbatim>\<open>Array.prototype.slice(start)\<close> with a negative \<^verbatim>\<open>start\<close> begins at
  \<^verbatim>\<open>max(length + start, 0)\<close>; \<open>slice_last n\<close> is \<^verbatim>\<open>slice(-n)\<close> for \<open>n > 0\<close>.
  The subtraction on \<open>nat\<close> truncates at zero, which is the \<^verbatim>\<open>max(_, 0)\<close>.
\<close>

definition slice_last :: "nat \<Rightarrow> 'a list \<Rightarrow> 'a list" where
  "slice_last n xs = drop (length xs - n) xs"

text \<open>The state update of \<^verbatim>\<open>LogStream.jsx\<close>, line 63.\<close>

definition ingest :: "'a list \<Rightarrow> 'a \<Rightarrow> 'a list" where
  "ingest prevLogs newLog = slice_last 99 prevLogs @ [newLog]"

text \<open>The state update of the hook \<^verbatim>\<open>useLogStream.jsx\<close>, line 13: no eviction.\<close>

definition ingest_hook :: "'a list \<Rightarrow> 'a \<Rightarrow> 'a list" where
  "ingest_hook prevLogs newLog = prevLogs @ [newLog]"

text \<open>Ingesting a sequence of events, one state update per event, in arrival order.\<close>

definition ingest_all :: "'a list \<Rightarrow> 'a list \<Rightarrow> 'a list" where
  "ingest_all w es = foldl ingest w es"

subsection \<open>The EventSource handlers of the dashboard component\<close>

text \<open>
  \<^verbatim>\<open>JSON.parse\<close> belongs to the JavaScript runtime. It is a parameter \<open>parse\<close> of the
  model: \<open>parse d = None\<close> where \<^verbatim>\<open>JSON.parse(d)\<close> throws a \<^verbatim>\<open>SyntaxError\<close>, and
  \<open>parse d = Some v\<close> where it returns the value \<open>v\<close>.
\<close>

datatype js_error = SyntaxError

definition JSON_parse :: "(string \<Rightarrow> 'a option) \<Rightarrow> string \<Rightarrow> js_error + 'a" where
  "JSON_parse parse d = (case parse d of None \<Rightarrow> Inl SyntaxError | Some v \<Rightarrow> Inr v)"

text \<open>
  \<^verbatim>\<open>eventSource.onmessage\<close> of \<^verbatim>\<open>LogStream.jsx\<close> (lines 61 to 64). The handler has no
  \<^verbatim>\<open>try\<close>: an exception of \<^verbatim>\<open>JSON.parse\<close> leaves the handler before \<^verbatim>\<open>setLogs\<close> is
  called. On success the handler passes an updater function to \<^verbatim>\<open>setLogs\<close>.
\<close>

definition LogStream_onmessage ::
  "(string \<Rightarrow> 'a option) \<Rightarrow> string \<Rightarrow> js_error + ('a list \<Rightarrow> 'a list)" where
  "LogStream_onmessage parse d =
     (case JSON_parse parse d of
        Inl e \<Rightarrow> Inl e
      | Inr newLog \<Rightarrow> Inr (\<lambda>prevLogs. ingest prevLogs newLog))"

text \<open>\<^verbatim>\<open>eventSource.onmessage\<close> of the hook \<^verbatim>\<open>useLogStream.jsx\<close> (lines 11 to 14).\<close>

definition useLogStream_onmessage ::
  "(string \<Rightarrow> 'a option) \<Rightarrow> string \<Rightarrow> js_error + ('a list \<Rightarrow> 'a list)" where
  "useLogStream_onmessage parse d =
     (case JSON_parse parse d of
        Inl e \<Rightarrow> Inl e
      | Inr newLog \<Rightarrow> Inr (\<lambda>prevLogs. ingest_hook prevLogs newLog))"

text \<open>
  What the browser delivers to an \<^verbatim>\<open>EventSource\<close>: a message with its data, the open
  event, or the error event.
\<close>

datatype es_event = Message string | Open | Error

datatype console_entry = ConsoleError string | Uncaught js_error

text \<open>
  The state of the mounted \<^verbatim>\<open>LogStream\<close> component: the two \<^verbatim>\<open>useState\<close> cells, whether
  \<^verbatim>\<open>eventSource.close()\<close> has been called, and what has been written to the console.
\<close>

record 'a component =
  logs :: "'a list"
  connected :: bool
  closed :: bool
  console :: "console_entry list"

definition LogStream_init :: "'a component" where
  "LogStream_init = \<lparr>logs = [], connected = False, closed = False, console = []\<rparr>"

text \<open>
  One event delivered to the component. A closed \<^verbatim>\<open>EventSource\<close> dispatches nothing.
  The host runs the handler; an exception that leaves a handler is reported by the host
  (an uncaught error on the console) and ends that handler call only: it neither closes
  the \<^verbatim>\<open>EventSource\<close> nor fires its error event. \<^verbatim>\<open>onopen\<close> and \<^verbatim>\<open>onerror\<close> are lines 66
  to 74 of \<^verbatim>\<open>LogStream.jsx\<close>.
\<close>

fun LogStream_dispatch ::
  "(string \<Rightarrow> 'a option) \<Rightarrow> 'a component \<Rightarrow> es_event \<Rightarrow> 'a component" where
  "LogStream_dispatch parse s (Message d) =
     (if closed s then s
      else case LogStream_onmessage parse d of
             Inl e \<Rightarrow> s\<lparr>console := console s @ [Uncaught e]\<rparr>
           | Inr upd \<Rightarrow> s\<lparr>logs := upd (logs s)\<rparr>)"
| "LogStream_dispatch parse s Open =
     (if closed s then s else s\<lparr>connected := True\<rparr>)"
| "LogStream_dispatch parse s Error =
     (if closed s then s
      else s\<lparr>console := console s @ [ConsoleError ''Error occurred while streaming logs.''],
             connected := False, closed := True\<rparr>)"

definition LogStream_run ::
  "(string \<Rightarrow> 'a option) \<Rightarrow> 'a component \<Rightarrow> es_event list \<Rightarrow> 'a component" where
  "LogStream_run parse s evs = foldl (LogStream_dispatch parse) s evs"

text \<open>
  The state of the hook \<^verbatim>\<open>useLogStream\<close>: its three \<^verbatim>\<open>useState\<close> cells, the closed flag
  of its \<^verbatim>\<open>EventSource\<close> and the console. The effect has run: \<^verbatim>\<open>setLoading(false)\<close>.
\<close>

record 'a hook =
  hook_logs :: "'a list"
  hook_error :: "string option"
  hook_loading :: bool
  hook_closed :: bool
  hook_console :: "console_entry list"

definition useLogStream_init :: "'a hook" where
  "useLogStream_init =
     \<lparr>hook_logs = [], hook_error = None, hook_loading = False, hook_closed = False,
      hook_console = []\<rparr>"

fun useLogStream_dispatch ::
  "(string \<Rightarrow> 'a option) \<Rightarrow> 'a hook \<Rightarrow> es_event \<Rightarrow> 'a hook" where
  "useLogStream_dispatch parse s (Message d) =
     (if hook_closed s then s
      else case useLogStream_onmessage parse d of
             Inl e \<Rightarrow> s\<lparr>hook_console := hook_console s @ [Uncaught e]\<rparr>
           | Inr upd \<Rightarrow> s\<lparr>hook_logs := upd (hook_logs s)\<rparr>)"
| "useLogStream_dispatch parse s Open = s"
| "useLogStream_dispatch parse s Error =
     (if hook_closed s then s
      else s\<lparr>hook_error := Some ''Error connecting to log stream'', hook_closed := True\<rparr>)"

definition useLogStream_run ::
  "(string \<Rightarrow> 'a option) \<Rightarrow> 'a hook \<Rightarrow> es_event list \<Rightarrow> 'a hook" where
  "useLogStream_run parse s evs = foldl (useLogStream_dispatch parse) s evs"

subsection \<open>Number formatting: \<^verbatim>\<open>Number.prototype.toFixed\<close>\<close>

text \<open>
  A value held by a field of \<^verbatim>\<open>stats\<close>: a number, or the string \<^verbatim>\<open>toFixed\<close> returns.
  \<open>Fixed neg f n\<close> is the decimal string of \<open>n / 10 ^ f\<close> with exactly \<open>f\<close> digits after
  the point, preceded by a minus sign when \<open>neg\<close>; \<open>NumStr x\<close> is the plain string of
  the number \<open>x\<close>, which \<^verbatim>\<open>toFixed\<close> returns for \<^verbatim>\<open>NaN\<close>, the infinities and magnitudes
  from \<open>10 ^ 21\<close> on.
\<close>

datatype jsval = Num jsnumber | Fixed bool nat nat | NumStr jsnumber

text \<open>
  \<^verbatim>\<open>x.toFixed(f)\<close>: the sign is split off, and \<open>n\<close> is the integer nearest to the exact
  value of \<open>x * 10 ^ f\<close>, the larger one at a tie.
\<close>

fun toFixed :: "nat \<Rightarrow> jsnumber \<Rightarrow> jsval" where
  "toFixed f (Finite x) =
     (if 10 ^ 21 \<le> \<bar>x\<bar> then NumStr (Finite x)
      else Fixed (x < 0) f (nat \<lfloor>\<bar>x\<bar> * 10 ^ f + 1 / 2\<rfloor>))"
| "toFixed f a = NumStr a"

subsection \<open>\<^verbatim>\<open>stats\<close> (\<^verbatim>\<open>LogStream.jsx\<close>, lines 82 to 93)\<close>

text \<open>
  A window length is below \<open>2 ^ 32\<close>, so it and every count of window elements are
  doubles exactly.
\<close>

record stats_result =
  avgLatency :: jsval
  errorRate :: jsval
  requestCount :: nat

definition errorCount :: "log list \<Rightarrow> nat" where
  "errorCount window = length (filter (\<lambda>log. status_code log \<ge> 400) window)"

definition totalLatency :: "log list \<Rightarrow> jsnumber" where
  "totalLatency window = foldl (\<lambda>sum log. js_plus sum (latency_ms log)) (Finite 0) window"

definition stats :: "log list \<Rightarrow> stats_result" where
  "stats window =
     (if length window = 0
      then \<lparr>avgLatency = Num (Finite 0), errorRate = Num (Finite 0), requestCount = 0\<rparr>
      else \<lparr>avgLatency =
              toFixed 2 (js_divide (totalLatency window) (Finite (of_nat (length window)))),
            errorRate =
              toFixed 1 (js_times (js_divide (Finite (of_nat (errorCount window)))
                                             (Finite (of_nat (length window))))
                                  (Finite 100)),
            requestCount = length window\<rparr>)"

subsection \<open>\<^verbatim>\<open>threatLevel\<close> (\<^verbatim>\<open>LogStream.jsx\<close>, lines 106 to 119)\<close>

text \<open>
  The two local constants of lines 110 and 111. The code evaluates them on a non-empty
  window only (line 107 returns before).
\<close>

definition threatLevel_errorRate :: "log list \<Rightarrow> jsnumber" where
  "threatLevel_errorRate window =
     js_divide (Finite (of_nat (length (filter (\<lambda>log. status_code log \<ge> 400) window))))
               (Finite (of_nat (length window)))"

definition threatLevel_highLatencyRate :: "log list \<Rightarrow> jsnumber" where
  "threatLevel_highLatencyRate window =
     js_divide
       (Finite (of_nat (length (filter (\<lambda>log. js_greater (latency_ms log) (Finite 300)) window))))
       (Finite (of_nat (length window)))"

definition errorWeight :: jsnumber where
  "errorWeight = number_literal (6 / 10)"

definition latencyWeight :: jsnumber where
  "latencyWeight = number_literal (4 / 10)"

definition threatLevel :: "log list \<Rightarrow> jsnumber" where
  "threatLevel window =
     (if length window = 0 then Finite 0
      else Math_min (Finite 100)
             (Math_round
                (js_times (js_plus (js_times (threatLevel_errorRate window) errorWeight)
                                   (js_times (threatLevel_highLatencyRate window) latencyWeight))
                          (Finite 100))))"

text \<open>
  The fraction of the events of a window that satisfy a predicate, as the specification
  words the two rates: the count divided by the window length, in number arithmetic.
\<close>

definition fraction :: "(log \<Rightarrow> bool) \<Rightarrow> log list \<Rightarrow> jsnumber" where
  "fraction P window =
     js_divide (Finite (of_nat (length (filter P window)))) (Finite (of_nat (length window)))"

subsection \<open>\<^verbatim>\<open>endpoints\<close> (\<^verbatim>\<open>LogStream.jsx\<close>, lines 96 to 103)\<close>

text \<open>
  \<^verbatim>\<open>endpointMap\<close> is an object literal \<^verbatim>\<open>{}\<close> used as a dictionary, so a read of
  \<^verbatim>\<open>endpointMap[k]\<close> that finds no own property continues in \<^verbatim>\<open>Object.prototype\<close>.
  The values the code stores are numbers: a count, or \<^verbatim>\<open>NaN\<close> when \<^verbatim>\<open>++\<close> is applied to
  something that is not a number.
\<close>

datatype jsnum = Count nat | NaN

text \<open>The own properties of \<^verbatim>\<open>endpointMap\<close>, in creation order.\<close>

type_synonym jsobj = "(string \<times> jsnum) list"

text \<open>
  The property names of \<^verbatim>\<open>Object.prototype\<close> in ECMAScript. All hold functions but
  \<^verbatim>\<open>__proto__\<close>, an accessor whose getter returns the prototype object and whose setter
  ignores a value that is neither an object nor null.
\<close>

definition Object_prototype_keys :: "string list" where
  "Object_prototype_keys =
     [''constructor'', ''hasOwnProperty'', ''isPrototypeOf'', ''propertyIsEnumerable'',
      ''toLocaleString'', ''toString'', ''valueOf'', ''__proto__'',
      ''__defineGetter__'', ''__defineSetter__'', ''__lookupGetter__'', ''__lookupSetter__'']"

text \<open>What \<^verbatim>\<open>endpointMap[k]\<close> evaluates to.\<close>

datatype lookup = Undefined | OwnValue jsnum | Inherited

definition obj_get :: "jsobj \<Rightarrow> string \<Rightarrow> lookup" where
  "obj_get obj k =
     (case map_of obj k of
        Some v \<Rightarrow> OwnValue v
      | None \<Rightarrow> if k \<in> set Object_prototype_keys then Inherited else Undefined)"

primrec obj_update :: "string \<Rightarrow> jsnum \<Rightarrow> jsobj \<Rightarrow> jsobj" where
  "obj_update k v [] = [(k, v)]"
| "obj_update k v (p # ps) = (if fst p = k then (k, v) # ps else p # obj_update k v ps)"

text \<open>
  \<^verbatim>\<open>endpointMap[k] = v\<close> for a number \<open>v\<close>: an own property is overwritten in place, a
  new one is created last; the setter of \<^verbatim>\<open>__proto__\<close> ignores the number.
\<close>

definition obj_set :: "jsobj \<Rightarrow> string \<Rightarrow> jsnum \<Rightarrow> jsobj" where
  "obj_set obj k v = (if k = ''__proto__'' then obj else obj_update k v obj)"

text \<open>\<^verbatim>\<open>!x\<close>: undefined, zero and \<^verbatim>\<open>NaN\<close> are falsy, a function or an object is not.\<close>

fun falsy :: "lookup \<Rightarrow> bool" where
  "falsy Undefined = True"
| "falsy (OwnValue (Count n)) = (n = 0)"
| "falsy (OwnValue NaN) = True"
| "falsy Inherited = False"

text \<open>
  The new value of \<^verbatim>\<open>x++\<close>: a count is incremented; undefined, \<^verbatim>\<open>NaN\<close>, a function and
  an object convert to \<^verbatim>\<open>NaN\<close>, and \<^verbatim>\<open>NaN + 1\<close> is \<^verbatim>\<open>NaN\<close>.
\<close>

fun incremented :: "lookup \<Rightarrow> jsnum" where
  "incremented (OwnValue (Count n)) = Count (Suc n)"
| "incremented (OwnValue NaN) = NaN"
| "incremented Undefined = NaN"
| "incremented Inherited = NaN"

text \<open>The body of the \<^verbatim>\<open>forEach\<close> callback, lines 99 and 100.\<close>

definition count_endpoint :: "jsobj \<Rightarrow> log \<Rightarrow> jsobj" where
  "count_endpoint obj l =
     (let k = endpoint l;
          m = (if falsy (obj_get obj k) then obj_set obj k (Count 0) else obj)
      in obj_set m k (incremented (obj_get m k)))"

definition endpointMap :: "log list \<Rightarrow> jsobj" where
  "endpointMap window = foldl count_endpoint [] window"

text \<open>
  \<^verbatim>\<open>Object.entries\<close> lists the own enumerable string-keyed properties: first the keys
  that are array indices (canonical decimal numerals below \<open>2 ^ 32 - 1 = 4294967295\<close>) in ascending
  numeric order, then the other keys in creation order.
\<close>

definition is_digit :: "char \<Rightarrow> bool" where
  "is_digit c = (c \<in> set ''0123456789'')"

definition digits_value :: "string \<Rightarrow> int" where
  "digits_value s = foldl (\<lambda>n c. 10 * n + (of_char c - 48)) 0 s"

definition is_array_index :: "string \<Rightarrow> bool" where
  "is_array_index s =
     (s \<noteq> [] \<and> list_all is_digit s \<and> (if s = ''0'' then True else hd s \<noteq> CHR ''0'')
      \<and> digits_value s < 4294967295)"

definition Object_entries :: "jsobj \<Rightarrow> (string \<times> jsnum) list" where
  "Object_entries obj =
     sort_key (\<lambda>p. digits_value (fst p)) (filter (\<lambda>p. is_array_index (fst p)) obj)
     @ filter (\<lambda>p. \<not> is_array_index (fst p)) obj"

definition endpoints :: "log list \<Rightarrow> (string \<times> jsnum) list" where
  "endpoints window = Object_entries (endpointMap window)"

text \<open>JavaScript addition on these numbers: \<^verbatim>\<open>NaN\<close> absorbs.\<close>

fun js_add :: "jsnum \<Rightarrow> jsnum \<Rightarrow> jsnum" where
  "js_add (Count a) (Count b) = Count (a + b)"
| "js_add _ _ = NaN"

definition js_sum :: "jsnum list \<Rightarrow> jsnum" where
  "js_sum vs = foldl js_add (Count 0) vs"

subsection \<open>Counting in \<^verbatim>\<open>endpointMap\<close>\<close>

text \<open>
  The count a number stands for (\<^verbatim>\<open>NaN\<close> counts nothing), the count stored under a key,
  the sum of all stored counts, and the objects all of whose values are positive counts.
\<close>

fun count_val :: "jsnum \<Rightarrow> nat" where
  "count_val (Count n) = n"
| "count_val NaN = 0"

definition tally :: "jsobj \<Rightarrow> string \<Rightarrow> nat" where
  "tally obj k = (case map_of obj k of Some v \<Rightarrow> count_val v | None \<Rightarrow> 0)"

definition total :: "jsobj \<Rightarrow> nat" where
  "total obj = sum_list (map (\<lambda>p. count_val (snd p)) obj)"

definition positive_counts :: "jsobj \<Rightarrow> bool" where
  "positive_counts obj = list_all (\<lambda>p. 0 < count_val (snd p)) obj"

subsection \<open>What the component renders from\<close>

text \<open>
  The three memoised aggregates, each with the dependency list \<^verbatim>\<open>[logs]\<close>: they are
  recomputed from the \<^verbatim>\<open>logs\<close> cell of the component state and read nothing else.
\<close>

definition snapshot ::
  "log component \<Rightarrow> stats_result \<times> (string \<times> jsnum) list \<times> jsnumber" where
  "snapshot s = (stats (logs s), endpoints (logs s), threatLevel (logs s))"

section \<open>The Express service: \<^verbatim>\<open>GET /logs/cloudfront\<close>\<close>

text \<open>
  Each request to \<^verbatim>\<open>/logs/cloudfront\<close> runs the handler of lines 156 to 201: it awaits
  an \<^verbatim>\<open>axios\<close> stream from the Flask service and, when that resolves, registers three
  listeners whose closures hold this request's \<^verbatim>\<open>res\<close> and this request's
  \<^verbatim>\<open>axiosResponse\<close>. Tracing spans, log lines and response headers do not influence the
  streams and are left out.
\<close>

type_synonym rid = nat

type_synonym chunk = string

text \<open>
  The state of one upstream stream \<^verbatim>\<open>axiosResponse.data\<close>. A Node readable stream
  emits \<^verbatim>\<open>data\<close>, \<^verbatim>\<open>end\<close> and \<^verbatim>\<open>error\<close> only while it is flowing.
\<close>

datatype up_state = Flowing | Destroyed | Errored | Ended

record upstream =
  owner :: rid
  state :: up_state

record response =
  http_status :: nat
  body :: "chunk list"
  ended :: bool

record relay =
  upstreams :: "upstream list"
  responses :: "rid \<Rightarrow> response option"

definition relay_init :: relay where
  "relay_init = \<lparr>upstreams = [], responses = (\<lambda>r. None)\<rparr>"

text \<open>
  What happens to the service: a request with identifier \<open>r\<close> (\<^verbatim>\<open>req.id\<close>, a fresh uuid)
  whose upstream connection succeeds or fails; upstream number \<open>u\<close> (in the order
  opened) emits a chunk, an error or its end; the client of request \<open>r\<close> disconnects.
\<close>

datatype relay_event =
  Request rid bool
  | UpstreamData nat chunk
  | UpstreamError nat
  | UpstreamEnd nat
  | ClientClose rid

definition res_write :: "chunk \<Rightarrow> response \<Rightarrow> response" where
  "res_write c r = r\<lparr>body := body r @ [c]\<rparr>"

definition res_end :: "response \<Rightarrow> response" where
  "res_end r = r\<lparr>ended := True\<rparr>"

definition on_response :: "(response \<Rightarrow> response) \<Rightarrow> rid \<Rightarrow> relay \<Rightarrow> relay" where
  "on_response f r s =
     (case responses s r of
        None \<Rightarrow> s
      | Some x \<Rightarrow> s\<lparr>responses := (responses s)(r \<mapsto> f x)\<rparr>)"

definition flowing :: "relay \<Rightarrow> nat \<Rightarrow> bool" where
  "flowing s u = (u < length (upstreams s) \<and> state (upstreams s ! u) = Flowing)"

definition set_state :: "nat \<Rightarrow> up_state \<Rightarrow> relay \<Rightarrow> relay" where
  "set_state u st s = s\<lparr>upstreams := (upstreams s)[u := (upstreams s ! u)\<lparr>state := st\<rparr>]\<rparr>"

text \<open>
  One event. A successful request opens an upstream of its own and listens on it; a
  failed one answers 500 (lines 192 to 200). The \<^verbatim>\<open>data\<close> listener writes the chunk to
  the response of the request that opened the upstream (line 172); the \<^verbatim>\<open>error\<close>
  listener ends that response (line 190); no listener is registered for \<^verbatim>\<open>end\<close>; the
  \<^verbatim>\<open>close\<close> listener of the request destroys that request's upstream (line 177).
\<close>

fun relay_step :: "relay \<Rightarrow> relay_event \<Rightarrow> relay" where
  "relay_step s (Request r ok) =
     (if ok
      then s\<lparr>upstreams := upstreams s @ [\<lparr>owner = r, state = Flowing\<rparr>],
             responses := (responses s)(r \<mapsto> \<lparr>http_status = 200, body = [], ended = False\<rparr>)\<rparr>
      else s\<lparr>responses := (responses s)(r \<mapsto>
               \<lparr>http_status = 500, body = [''Error connecting to log stream''],
                ended = True\<rparr>)\<rparr>)"
| "relay_step s (UpstreamData u c) =
     (if flowing s u then on_response (res_write c) (owner (upstreams s ! u)) s else s)"
| "relay_step s (UpstreamError u) =
     (if flowing s u
      then on_response res_end (owner (upstreams s ! u)) (set_state u Errored s)
      else s)"
| "relay_step s (UpstreamEnd u) =
     (if flowing s u then set_state u Ended s else s)"
| "relay_step s (ClientClose r) =
     s\<lparr>upstreams :=
          map (\<lambda>x. if owner x = r \<and> state x = Flowing then x\<lparr>state := Destroyed\<rparr> else x)
              (upstreams s)\<rparr>"

definition relay_run :: "relay \<Rightarrow> relay_event list \<Rightarrow> relay" where
  "relay_run s evs = foldl relay_step s evs"

text \<open>
  The identifiers of the requests of an event sequence whose upstream connection
  succeeded, in arrival order.
\<close>

fun attached_ids :: "relay_event list \<Rightarrow> rid list" where
  "attached_ids [] = []"
| "attached_ids (Request r ok # evs) = (if ok then r # attached_ids evs else attached_ids evs)"
| "attached_ids (e # evs) = attached_ids evs"

text \<open>The requests of an event sequence whose upstream connection succeeded.\<close>

fun attached :: "relay_event \<Rightarrow> bool" where
  "attached (Request r ok) = ok"
| "attached _ = False"


section \<open>Example inputs\<close>

text \<open>The two events of the scenario of the specification, and an error served fast.\<close>

definition scenario_ok :: log where
  "scenario_ok = \<lparr>endpoint = ''/a'', status_code = 200, latency_ms = Finite 50, timestamp = ''t1''\<rparr>"

definition scenario_err :: log where
  "scenario_err = \<lparr>endpoint = ''/a'', status_code = 500, latency_ms = Finite 400, timestamp = ''t2''\<rparr>"

definition fast_err :: log where
  "fast_err = \<lparr>endpoint = ''/b'', status_code = 500, latency_ms = Finite 50, timestamp = ''t3''\<rparr>"


definition twenty_three_in_eighty :: "log list" where
  "twenty_three_in_eighty = replicate 23 fast_err @ replicate 57 scenario_ok"

text \<open>A decoder that accepts one message and rejects every other.\<close>

definition example_parse :: "string \<Rightarrow> log option" where
  "example_parse d = (if d = ''ok'' then Some scenario_ok else None)"

text \<open>An event whose endpoint is the name of a method every object inherits.\<close>

definition constructor_event :: log where
  "constructor_event =
     \<lparr>endpoint = ''constructor'', status_code = 200, latency_ms = Finite 50, timestamp = ''t4''\<rparr>"

text \<open>The service after two and after three clients have attached.\<close>

definition two_attached :: relay where
  "two_attached = relay_run relay_init [Request 1 True, Request 2 True]"


section \<open>Proofs\<close>

subsection \<open>Window lemmas\<close>

lemma ingest_all_snoc: "ingest_all w (es @ [e]) = ingest (ingest_all w es) e"
  by (simp add: ingest_all_def)

lemma slice_last_append_one:
  "slice_last 99 (slice_last 100 es) @ [e] = slice_last 100 (es @ [e])"
proof (cases "length es < 100")
  case True
  then show ?thesis by (simp add: slice_last_def)
next
  case False
  then have "Suc (length es - 100) = length es - 99" by arith
  with False show ?thesis by (simp add: slice_last_def)
qed

lemma ingest_all_from_empty: "ingest_all [] es = slice_last 100 es"
proof (induction es rule: rev_induct)
  case Nil
  show ?case by (simp add: ingest_all_def slice_last_def)
next
  case (snoc e es)
  have "ingest_all [] (es @ [e]) = slice_last 99 (slice_last 100 es) @ [e]"
    by (simp add: ingest_all_snoc snoc.IH ingest_def)
  then show ?case by (simp only: slice_last_append_one)
qed

text \<open>
  Claim C1. After the N-th ingestion into the initially empty window the window holds
  \<open>min N 100\<close> events, and they are exactly the last \<open>min N 100\<close> events of the input, in
  arrival order: the window is the input with its first \<open>N - 100\<close> events dropped.
\<close>

theorem window_most_recent:
  "length (ingest_all [] es) = min (length es) 100
   \<and> ingest_all [] es = drop (length es - min (length es) 100) es"
  by (simp add: ingest_all_from_empty slice_last_def min_def)

subsection \<open>Rounding to doubles\<close>

lemma overflow_threshold_pow: "overflow_threshold = 2 ^ 1024"
  by (simp add: overflow_threshold_def)

lemma pow2_add: "(2::rat) powi (j + k) = 2 powi j * 2 powi k"
  by (simp add: power_int_add)

lemma pow2_nat: "0 \<le> k \<Longrightarrow> (2::rat) powi k = 2 ^ nat k"
  by (simp add: power_int_def)

lemma pow2_of_int: "0 \<le> k \<Longrightarrow> (2::rat) powi k = of_int (2 ^ nat k)"
  by (simp add: power_int_def)

lemma pow2_ge_1: "0 \<le> k \<Longrightarrow> (1::rat) \<le> 2 powi k"
  by (simp add: pow2_nat)

lemma pow2_mono: "j \<le> k \<Longrightarrow> (2::rat) powi j \<le> 2 powi k"
proof -
  assume "j \<le> k"
  then have "(1::rat) \<le> 2 powi (k - j)" by (simp add: pow2_ge_1)
  then have "2 powi j * 1 \<le> 2 powi j * (2::rat) powi (k - j)"
    by (intro mult_left_mono) simp_all
  also have "\<dots> = 2 powi (j + (k - j))" by (simp only: pow2_add)
  finally show ?thesis by simp
qed

lemma pow2_strict_mono: "j < k \<Longrightarrow> (2::rat) powi j < 2 powi k"
proof -
  assume "j < k"
  then have "j + 1 \<le> k" by simp
  then have "(2::rat) powi (j + 1) \<le> 2 powi k" by (rule pow2_mono)
  moreover have "(2::rat) powi j < 2 powi (j + 1)" by (simp add: pow2_add)
  ultimately show ?thesis by simp
qed

lemma pow2_le_imp_le: "(2::rat) powi j \<le> 2 powi k \<Longrightarrow> j \<le> k"
  using pow2_strict_mono [of k j] by (cases "j \<le> k") simp_all

lemma pow2_less_imp_less: "(2::rat) powi j < 2 powi k \<Longrightarrow> j < k"
  using pow2_mono [of k j] by (cases "j < k") simp_all

lemma round_half_even_cases:
  "round_half_even y = \<lfloor>y\<rfloor> \<and> y - of_int \<lfloor>y\<rfloor> \<le> 1 / 2
   \<or> round_half_even y = \<lfloor>y\<rfloor> + 1 \<and> 1 / 2 \<le> y - of_int \<lfloor>y\<rfloor>"
  by (auto simp: round_half_even_def Let_def)

lemma round_half_even_error: "\<bar>of_int (round_half_even y) - y\<bar> \<le> 1 / 2"
proof -
  have "of_int \<lfloor>y\<rfloor> \<le> y" "y < of_int \<lfloor>y\<rfloor> + 1" by linarith+
  with round_half_even_cases [of y] show ?thesis by auto
qed

lemma round_half_even_le: "y \<le> of_int m \<Longrightarrow> round_half_even y \<le> m"
proof -
  assume le: "y \<le> of_int m"
  then have f: "\<lfloor>y\<rfloor> \<le> m" by (simp add: floor_le_iff)
  from round_half_even_cases [of y] show ?thesis
  proof
    assume "round_half_even y = \<lfloor>y\<rfloor> \<and> y - of_int \<lfloor>y\<rfloor> \<le> 1 / 2"
    with f show ?thesis by simp
  next
    assume a: "round_half_even y = \<lfloor>y\<rfloor> + 1 \<and> 1 / 2 \<le> y - of_int \<lfloor>y\<rfloor>"
    then have "(of_int \<lfloor>y\<rfloor> :: rat) < y" by linarith
    with le have "(of_int \<lfloor>y\<rfloor> :: rat) < of_int m" by linarith
    then have "\<lfloor>y\<rfloor> < m" by simp
    with a show ?thesis by simp
  qed
qed

lemma round_half_even_ge: "of_int m \<le> y \<Longrightarrow> m \<le> round_half_even y"
proof -
  assume "of_int m \<le> y"
  then have "m \<le> \<lfloor>y\<rfloor>" by (simp add: le_floor_iff)
  with round_half_even_cases [of y] show ?thesis by auto
qed

lemma bitlen_pos: "0 < p \<Longrightarrow> 1 \<le> bitlen p"
  using bitlen_nonneg [of p] bitlen_eq_zero_iff [of p] by linarith

lemma bitlen_bounds_rat:
  assumes "0 < p"
  shows "(2::rat) powi (bitlen p - 1) \<le> of_int p" and "of_int p < (2::rat) powi bitlen p"
proof -
  from bitlen_bounds [OF assms]
  have lo: "2 ^ nat (bitlen p - 1) \<le> p" and hi: "p < 2 ^ nat (bitlen p)" by auto
  have b: "1 \<le> bitlen p" using assms by (rule bitlen_pos)
  from lo have "(of_int (2 ^ nat (bitlen p - 1)) :: rat) \<le> of_int p" by (simp only: of_int_le_iff)
  then show "(2::rat) powi (bitlen p - 1) \<le> of_int p" using b by (simp add: pow2_of_int)
  from hi have "(of_int p :: rat) < of_int (2 ^ nat (bitlen p))" by (simp only: of_int_less_iff)
  then show "of_int p < (2::rat) powi bitlen p" using b by (simp add: pow2_of_int)
qed

lemma binade_bounds:
  assumes "0 < x"
  shows "2 powi binade x \<le> x" and "x < 2 powi (binade x + 1)"
proof -
  obtain p q where pq: "quotient_of x = (p, q)" by (cases "quotient_of x")
  have q: "0 < q" using pq by (rule quotient_of_denom_pos)
  have x: "x = of_int p / of_int q" using pq by (rule quotient_of_div)
  have p: "0 < p" using assms q x by (simp add: zero_less_divide_iff)
  define k where "k = bitlen p - bitlen q"
  have qr: "(0::rat) < of_int q" using q by simp
  note P = bitlen_bounds_rat [OF p]
  note Q = bitlen_bounds_rat [OF q]
  have up: "x < 2 powi (k + 1)"
  proof -
    have "of_int p < (2::rat) powi (k + 1) * 2 powi (bitlen q - 1)"
      using P(2) by (simp add: pow2_add [symmetric] k_def)
    also have "\<dots> \<le> 2 powi (k + 1) * of_int q"
      using Q(1) by (intro mult_left_mono) simp_all
    finally show ?thesis using qr by (simp add: x pos_divide_less_eq)
  qed
  have lo: "2 powi (k - 1) < x"
  proof -
    have "(2::rat) powi (k - 1) * of_int q < 2 powi (k - 1) * 2 powi bitlen q"
      using Q(2) by (intro mult_strict_left_mono) simp_all
    also have "\<dots> = 2 powi (bitlen p - 1)"
      by (simp add: pow2_add [symmetric] k_def)
    also have "\<dots> \<le> of_int p" by (rule P(1))
    finally show ?thesis using qr by (simp add: x pos_less_divide_eq)
  qed
  have b: "binade x = (if 2 powi k \<le> x then k else k - 1)"
    by (simp add: binade_def pq k_def)
  show "2 powi binade x \<le> x" using lo by (simp add: b)
  show "x < 2 powi (binade x + 1)" using up by (simp add: b not_le)
qed

lemma binade_le:
  assumes "0 < x" "x \<le> 2 powi k"
  shows "binade x \<le> k"
proof -
  have "(2::rat) powi binade x \<le> 2 powi k"
    using binade_bounds(1) [OF assms(1)] assms(2) by simp
  then show ?thesis by (rule pow2_le_imp_le)
qed

lemma ulp_pos: "0 < ulp x"
  by (simp add: ulp_def)

lemma nearest_double_nonneg: "0 \<le> x \<Longrightarrow> 0 \<le> nearest_double x"
proof -
  assume x: "0 \<le> x"
  have "of_int 0 \<le> x / ulp x" using x ulp_pos [of x] by simp
  then have "0 \<le> round_half_even (x / ulp x)" by (rule round_half_even_ge)
  then show ?thesis using ulp_pos [of x] by (simp add: nearest_double_def)
qed

lemma nearest_double_le_pow2:
  assumes x: "0 < x" and le: "x \<le> 2 powi k" and k: "- 1074 \<le> k"
  shows "nearest_double x \<le> 2 powi k"
proof -
  define ue where "ue = max (binade \<bar>x\<bar> - 52) (- 1074)"
  have u: "ulp x = 2 powi ue" by (simp add: ulp_def ue_def)
  have "binade x \<le> k" using x le by (rule binade_le)
  then have uk: "ue \<le> k" using k x by (simp add: ue_def)
  have split: "(2::rat) powi k = 2 powi (k - ue) * 2 powi ue"
    by (simp add: pow2_add [symmetric])
  have "x / 2 powi ue \<le> 2 powi (k - ue)"
    using le by (simp add: pos_divide_le_eq split [symmetric])
  also have "\<dots> = of_int (2 ^ nat (k - ue))" using uk by (simp add: pow2_of_int)
  finally have "round_half_even (x / 2 powi ue) \<le> 2 ^ nat (k - ue)"
    by (rule round_half_even_le)
  then have "(of_int (round_half_even (x / 2 powi ue)) :: rat) \<le> of_int (2 ^ nat (k - ue))"
    by (simp only: of_int_le_iff)
  then have "of_int (round_half_even (x / 2 powi ue)) * 2 powi ue
             \<le> (of_int (2 ^ nat (k - ue)) :: rat) * 2 powi ue"
    by (intro mult_right_mono) simp_all
  also have "\<dots> = 2 powi (k - ue) * 2 powi ue" using uk by (simp add: pow2_nat)
  also have "\<dots> = 2 powi k" by (simp only: split)
  finally show ?thesis using x by (simp add: nearest_double_def u)
qed

lemma nearest_double_error:
  assumes x: "0 \<le> x" and le: "x \<le> 2 powi k" and k: "- 1022 \<le> k"
  shows "\<bar>nearest_double x - x\<bar> \<le> 2 powi (k - 53)"
proof (cases "x = 0")
  case True
  then show ?thesis by (simp add: nearest_double_def)
next
  case False
  with x have xp: "0 < x" by simp
  define ue where "ue = max (binade \<bar>x\<bar> - 52) (- 1074)"
  have u: "ulp x = 2 powi ue" by (simp add: ulp_def ue_def)
  have "binade x \<le> k" using xp le by (rule binade_le)
  then have uk: "ue \<le> k - 52" using k xp by (simp add: ue_def)
  have "nearest_double x - x = (of_int (round_half_even (x / 2 powi ue)) - x / 2 powi ue) * 2 powi ue"
    using False by (simp add: nearest_double_def u left_diff_distrib)
  then have "\<bar>nearest_double x - x\<bar>
             = \<bar>of_int (round_half_even (x / 2 powi ue)) - x / 2 powi ue\<bar> * 2 powi ue"
    by (simp add: abs_mult)
  also have "\<dots> \<le> (1 / 2) * 2 powi ue"
    by (intro mult_right_mono round_half_even_error) simp
  also have "\<dots> \<le> (1 / 2) * 2 powi (k - 52)"
    using pow2_mono [OF uk] by simp
  also have "\<dots> = 2 powi (k - 53)"
  proof -
    have "(2::rat) powi (k - 52) = 2 powi (k - 53 + 1)" by simp
    also have "\<dots> = 2 powi (k - 53) * 2" by (simp only: pow2_add) simp
    finally show ?thesis by simp
  qed
  finally show ?thesis .
qed

lemma to_number_bounded:
  assumes x: "0 \<le> x" and le: "x \<le> 2 powi k" and k1: "- 1022 \<le> k" and k2: "k \<le> 1023"
  shows "\<exists>y. to_number x = Finite y \<and> 0 \<le> y \<and> y \<le> 2 powi k
             \<and> \<bar>y - x\<bar> \<le> 2 powi (k - 53)"
proof -
  have n: "0 \<le> nearest_double x" using x by (rule nearest_double_nonneg)
  have b: "nearest_double x \<le> 2 powi k"
  proof (cases "x = 0")
    case True
    then show ?thesis by (simp add: nearest_double_def)
  next
    case False
    with x have "0 < x" by simp
    then show ?thesis using le k1 by (intro nearest_double_le_pow2) simp_all
  qed
  have "(2::rat) powi k < 2 powi 1024" using k2 by (intro pow2_strict_mono) simp
  then have lt: "nearest_double x < overflow_threshold"
    using b by (simp add: overflow_threshold_pow)
  have pos: "0 < overflow_threshold" by (simp add: overflow_threshold_def)
  have e: "\<bar>nearest_double x - x\<bar> \<le> 2 powi (k - 53)"
    using x le k1 by (rule nearest_double_error)
  have "to_number x = Finite (nearest_double x)"
    using lt n pos by (simp add: to_number_def Let_def)
  with n b e show ?thesis by blast
qed


subsection \<open>The threat score\<close>

lemma rate_bounds:
  "w \<noteq> [] \<Longrightarrow> 0 \<le> (of_nat (length (filter P w)) / of_nat (length w) :: rat)
     \<and> (of_nat (length (filter P w)) / of_nat (length w) :: rat) \<le> 1"
proof -
  assume "w \<noteq> []"
  then have pos: "(0::rat) < of_nat (length w)" by simp
  have "length (filter P w) \<le> length w" by (rule length_filter_le)
  then have le: "(of_nat (length (filter P w)) :: rat) \<le> of_nat (length w)" by simp
  from pos le show ?thesis by (simp add: divide_le_eq_1)
qed

lemma pow2_minus_numeral: "(2::rat) powi (- numeral n) = 1 / 2 ^ numeral n"
  by (simp add: power_int_minus_divide)

lemma fraction_bounded:
  assumes "w \<noteq> []"
  shows "\<exists>r. fraction P w = Finite r \<and> 0 \<le> r \<and> r \<le> 1
             \<and> \<bar>r - of_nat (length (filter P w)) / of_nat (length w)\<bar> \<le> 1 / 2 ^ 53"
proof -
  let ?x = "of_nat (length (filter P w)) / of_nat (length w) :: rat"
  have x: "0 \<le> ?x \<and> ?x \<le> 1" using assms by (rule rate_bounds)
  have n: "(of_nat (length w) :: rat) \<noteq> 0" using assms by simp
  have f: "fraction P w = to_number ?x" using n by (simp add: fraction_def)
  from x have "\<exists>y. to_number ?x = Finite y \<and> 0 \<le> y \<and> y \<le> 2 powi 0
                 \<and> \<bar>y - ?x\<bar> \<le> 2 powi (0 - 53)"
    by (intro to_number_bounded) simp_all
  then show ?thesis by (simp add: f pow2_minus_numeral)
qed











subsection \<open>The empty window\<close>

text \<open>
  Claim C6. On the empty window, which is also the window of a freshly mounted
  component, \<^verbatim>\<open>stats\<close> holds the numbers 0 for the average latency, the error rate and
  the request count, the threat score is 0 and \<^verbatim>\<open>endpoints\<close> has no entry.
\<close>

theorem empty_window_aggregates:
  "stats [] = \<lparr>avgLatency = Num (Finite 0), errorRate = Num (Finite 0), requestCount = 0\<rparr>
   \<and> threatLevel [] = Finite 0
   \<and> endpoints [] = []
   \<and> snapshot LogStream_init =
       (\<lparr>avgLatency = Num (Finite 0), errorRate = Num (Finite 0), requestCount = 0\<rparr>, [],
        Finite 0)"
  by (simp add: stats_def threatLevel_def endpoints_def endpointMap_def Object_entries_def
      snapshot_def LogStream_init_def)

subsection \<open>The error rate of \<^verbatim>\<open>stats\<close>\<close>

lemma toFixed_near:
  assumes "0 \<le> p" "p < 10 ^ 21"
  shows "toFixed f (Finite p) = Fixed False f (nat \<lfloor>p * 10 ^ f + 1 / 2\<rfloor>)"
    and "\<bar>of_nat (nat \<lfloor>p * 10 ^ f + 1 / 2\<rfloor>) / 10 ^ f - p\<bar> \<le> 1 / (2 * 10 ^ f)"
proof -
  show "toFixed f (Finite p) = Fixed False f (nat \<lfloor>p * 10 ^ f + 1 / 2\<rfloor>)"
    using assms by simp
  let ?y = "p * 10 ^ f"
  let ?n = "\<lfloor>?y + 1 / 2\<rfloor>"
  have y0: "0 \<le> ?y" using assms(1) by simp
  then have n0: "0 \<le> ?n" by simp
  have lo: "of_int ?n \<le> ?y + 1 / 2" by (rule of_int_floor_le)
  have hi: "?y + 1 / 2 < of_int ?n + 1" by linarith
  have d: "\<bar>of_int ?n - ?y\<bar> \<le> 1 / 2" using lo hi by linarith
  have "of_nat (nat ?n) / 10 ^ f - p = (of_int ?n - ?y) / 10 ^ f"
    using n0 by (simp add: diff_divide_distrib)
  then have "\<bar>of_nat (nat ?n) / 10 ^ f - p\<bar> = \<bar>of_int ?n - ?y\<bar> / 10 ^ f"
    by (simp add: abs_divide)
  also have "\<dots> \<le> (1 / 2) / 10 ^ f"
    by (rule divide_right_mono [OF d]) simp
  finally show "\<bar>of_nat (nat ?n) / 10 ^ f - p\<bar> \<le> 1 / (2 * 10 ^ f)" by simp
qed

lemma percent_bounded:
  assumes "w \<noteq> []"
  shows "\<exists>p. js_times (fraction P w) (Finite 100) = Finite p \<and> 0 \<le> p \<and> p \<le> 128
             \<and> \<bar>p - 100 * (of_nat (length (filter P w)) / of_nat (length w))\<bar> \<le> 1 / 2 ^ 45"
proof -
  let ?x = "of_nat (length (filter P w)) / of_nat (length w) :: rat"
  from fraction_bounded [OF assms] obtain r where
    r: "fraction P w = Finite r" "0 \<le> r" "r \<le> 1" "\<bar>r - ?x\<bar> \<le> 1 / 2 ^ 53" by blast
  have "0 \<le> r * 100 \<and> r * 100 \<le> 2 powi 7" using r by simp
  then have "\<exists>y. to_number (r * 100) = Finite y \<and> 0 \<le> y \<and> y \<le> 2 powi 7
                 \<and> \<bar>y - r * 100\<bar> \<le> 2 powi (7 - 53)"
    by (intro to_number_bounded) simp_all
  then obtain p where p: "to_number (r * 100) = Finite p" "0 \<le> p" "p \<le> 128"
    "\<bar>p - r * 100\<bar> \<le> 1 / 2 ^ 46"
    by (auto simp: pow2_minus_numeral)
  have "\<bar>p - 100 * ?x\<bar> = \<bar>(p - r * 100) + 100 * (r - ?x)\<bar>"
    by (simp add: algebra_simps)
  also have "\<dots> \<le> \<bar>p - r * 100\<bar> + \<bar>100 * (r - ?x)\<bar>" by (rule abs_triangle_ineq)
  also have "\<dots> = \<bar>p - r * 100\<bar> + 100 * \<bar>r - ?x\<bar>" by (simp only: abs_mult)
  also have "\<dots> \<le> 1 / 2 ^ 46 + 100 * (1 / 2 ^ 53)"
    by (intro add_mono mult_left_mono p(4) r(4)) simp
  also have "\<dots> \<le> 1 / 2 ^ 45" by simp
  finally have "\<bar>p - 100 * ?x\<bar> \<le> 1 / 2 ^ 45" .
  with p show ?thesis by (simp add: r(1))
qed

text \<open>
  Claim C7 as stated fails: no aggregate holds the error ratio rounded to two decimals.
  On a window of three events with one error the ratio rounded to two decimals is the
  string 0.33; \<^verbatim>\<open>stats\<close> holds 50.00 (the average latency), 33.3 (the percentage) and
  3, the ratio inside \<^verbatim>\<open>threatLevel\<close> is the double nearest to 1/3, and the score is 20.
\<close>

theorem error_ratio_two_decimals_counterexample:
  "toFixed 2 (fraction (\<lambda>l. 400 \<le> status_code l) [scenario_ok, scenario_ok, fast_err])
   \<notin> {avgLatency (stats [scenario_ok, scenario_ok, fast_err]),
       errorRate (stats [scenario_ok, scenario_ok, fast_err]),
       Num (Finite (of_nat (requestCount (stats [scenario_ok, scenario_ok, fast_err])))),
       Num (threatLevel_errorRate [scenario_ok, scenario_ok, fast_err]),
       Num (threatLevel [scenario_ok, scenario_ok, fast_err])}"
  by code_simp

text \<open>
  Claim C7, amended. On every non-empty window \<^verbatim>\<open>stats.errorRate\<close> is the fraction of
  events with status at least 400, times 100, formatted by \<^verbatim>\<open>toFixed(1)\<close>: a string with
  one decimal that differs from the exact percentage by at most 0.05 and the rounding
  error of the two double operations. The error ratio inside \<^verbatim>\<open>threatLevel\<close> is that
  fraction as a double, not rounded to decimals: it differs from the exact quotient by
  at most \<open>1 / 2 ^ 53\<close>. The two-decimal formatting of \<^verbatim>\<open>stats\<close> is applied to the
  average latency, the sum of the latencies divided by the window length.
\<close>

theorem error_rate_exposed:
  "w \<noteq> [] \<Longrightarrow>
     errorRate (stats w)
       = toFixed 1 (js_times (fraction (\<lambda>l. 400 \<le> status_code l) w) (Finite 100))
     \<and> (\<exists>m. errorRate (stats w) = Fixed False 1 m
            \<and> \<bar>(of_nat m :: rat) / 10
                 - 100 * (of_nat (length (filter (\<lambda>l. 400 \<le> status_code l) w))
                          / of_nat (length w))\<bar> \<le> 1 / 20 + 1 / 2 ^ 45)
     \<and> threatLevel_errorRate w = fraction (\<lambda>l. 400 \<le> status_code l) w
     \<and> (\<exists>r. threatLevel_errorRate w = Finite r
            \<and> \<bar>r - of_nat (length (filter (\<lambda>l. 400 \<le> status_code l) w))
                     / of_nat (length w)\<bar> \<le> 1 / 2 ^ 53)
     \<and> avgLatency (stats w)
         = toFixed 2 (js_divide (foldl (\<lambda>s l. js_plus s (latency_ms l)) (Finite 0) w)
                                (Finite (of_nat (length w))))"
proof -
  assume ne: "w \<noteq> []"
  let ?P = "\<lambda>l. 400 \<le> status_code l"
  let ?x = "of_nat (length (filter ?P w)) / of_nat (length w) :: rat"
  have a: "errorRate (stats w) = toFixed 1 (js_times (fraction ?P w) (Finite 100))"
    using ne by (simp add: stats_def errorCount_def fraction_def)
  from percent_bounded [OF ne] obtain p where
    p: "js_times (fraction ?P w) (Finite 100) = Finite p" "0 \<le> p" "p \<le> 128"
       "\<bar>p - 100 * ?x\<bar> \<le> 1 / 2 ^ 45" by blast
  have p21: "p < 10 ^ 21" using p(3) by simp
  let ?m = "nat \<lfloor>p * 10 ^ 1 + 1 / 2\<rfloor>"
  have m1: "toFixed 1 (Finite p) = Fixed False 1 ?m"
    using p(2) p21 by (rule toFixed_near)
  have "\<bar>of_nat ?m / 10 ^ 1 - p\<bar> \<le> 1 / (2 * 10 ^ 1)"
    using p(2) p21 by (rule toFixed_near)
  then have m2: "\<bar>of_nat ?m / 10 - p\<bar> \<le> 1 / 20" by simp
  have "\<bar>of_nat ?m / 10 - 100 * ?x\<bar> = \<bar>(of_nat ?m / 10 - p) + (p - 100 * ?x)\<bar>"
    by simp
  also have "\<dots> \<le> \<bar>of_nat ?m / 10 - p\<bar> + \<bar>p - 100 * ?x\<bar>"
    by (rule abs_triangle_ineq)
  also have "\<dots> \<le> 1 / 20 + 1 / 2 ^ 45" by (intro add_mono m2 p(4))
  finally have m3: "\<bar>of_nat ?m / 10 - 100 * ?x\<bar> \<le> 1 / 20 + 1 / 2 ^ 45" .
  have b: "\<exists>m. errorRate (stats w) = Fixed False 1 m
            \<and> \<bar>of_nat m / 10 - 100 * ?x\<bar> \<le> 1 / 20 + 1 / 2 ^ 45"
    using m1 m3 unfolding a p(1) by blast
  have c: "threatLevel_errorRate w = fraction ?P w"
    by (simp add: threatLevel_errorRate_def fraction_def)
  from fraction_bounded [OF ne] obtain r where
    "fraction ?P w = Finite r" "\<bar>r - ?x\<bar> \<le> 1 / 2 ^ 53" by blast
  then have d: "\<exists>r. threatLevel_errorRate w = Finite r \<and> \<bar>r - ?x\<bar> \<le> 1 / 2 ^ 53"
    unfolding c by blast
  have e: "avgLatency (stats w)
         = toFixed 2 (js_divide (foldl (\<lambda>s l. js_plus s (latency_ms l)) (Finite 0) w)
                                (Finite (of_nat (length w))))"
    using ne by (simp add: stats_def totalLatency_def)
  from a b c d e show ?thesis by blast
qed

text \<open>
  Claim C7, amended, at a window of 80 events with 23 errors: the percentage is the
  double just below 28.75, shown as 28.7.
\<close>

theorem error_rate_exposed_witness:
  "twenty_three_in_eighty \<noteq> []
   \<and> errorRate (stats twenty_three_in_eighty)
       = toFixed 1 (js_times (fraction (\<lambda>l. 400 \<le> status_code l) twenty_three_in_eighty)
                             (Finite 100))
   \<and> threatLevel_errorRate twenty_three_in_eighty
       = fraction (\<lambda>l. 400 \<le> status_code l) twenty_three_in_eighty
   \<and> errorRate (stats twenty_three_in_eighty) = Fixed False 1 287"
proof -
  have ne: "twenty_three_in_eighty \<noteq> []" by (simp add: twenty_three_in_eighty_def)
  have v: "toFixed 1 (js_times (fraction (\<lambda>l. 400 \<le> status_code l) twenty_three_in_eighty)
                               (Finite 100)) = Fixed False 1 287"
    by code_simp
  from error_rate_exposed [OF ne] v ne show ?thesis by simp
qed

subsection \<open>Malformed messages\<close>

lemma LogStream_dispatch_core:
  assumes "logs s = logs t" "connected s = connected t" "closed s = closed t"
  shows "logs (LogStream_dispatch parse s e) = logs (LogStream_dispatch parse t e)
     \<and> connected (LogStream_dispatch parse s e) = connected (LogStream_dispatch parse t e)
     \<and> closed (LogStream_dispatch parse s e) = closed (LogStream_dispatch parse t e)"
  using assms by (cases e) (simp_all split: sum.splits)

lemma LogStream_run_core:
  assumes "logs s = logs t" "connected s = connected t" "closed s = closed t"
  shows "logs (LogStream_run parse s evs) = logs (LogStream_run parse t evs)"
  using assms
proof (induction evs arbitrary: s t)
  case Nil
  then show ?case by (simp add: LogStream_run_def)
next
  case (Cons e evs)
  have "logs (LogStream_run parse (LogStream_dispatch parse s e) evs)
        = logs (LogStream_run parse (LogStream_dispatch parse t e) evs)"
    using LogStream_dispatch_core [OF Cons.prems, of parse e] by (intro Cons.IH) simp_all
  then show ?case by (simp add: LogStream_run_def)
qed

lemma useLogStream_dispatch_core:
  assumes "hook_logs s = hook_logs t" "hook_closed s = hook_closed t"
  shows "hook_logs (useLogStream_dispatch parse s e) = hook_logs (useLogStream_dispatch parse t e)
     \<and> hook_closed (useLogStream_dispatch parse s e) = hook_closed (useLogStream_dispatch parse t e)"
  using assms by (cases e) (simp_all split: sum.splits)

lemma useLogStream_run_core:
  assumes "hook_logs s = hook_logs t" "hook_closed s = hook_closed t"
  shows "hook_logs (useLogStream_run parse s evs) = hook_logs (useLogStream_run parse t evs)"
  using assms
proof (induction evs arbitrary: s t)
  case Nil
  then show ?case by (simp add: useLogStream_run_def)
next
  case (Cons e evs)
  have "hook_logs (useLogStream_run parse (useLogStream_dispatch parse s e) evs)
        = hook_logs (useLogStream_run parse (useLogStream_dispatch parse t e) evs)"
    using useLogStream_dispatch_core [OF Cons.prems, of parse e] by (intro Cons.IH) simp_all
  then show ?case by (simp add: useLogStream_run_def)
qed

lemma malformed_LogStream:
  assumes "parse d = None" "\<not> closed s"
  shows "LogStream_dispatch parse s (Message d) = s\<lparr>console := console s @ [Uncaught SyntaxError]\<rparr>"
  using assms by (simp add: LogStream_onmessage_def JSON_parse_def)

lemma malformed_useLogStream:
  assumes "parse d = None" "\<not> hook_closed h"
  shows "useLogStream_dispatch parse h (Message d)
         = h\<lparr>hook_console := hook_console h @ [Uncaught SyntaxError]\<rparr>"
  using assms by (simp add: useLogStream_onmessage_def JSON_parse_def)

text \<open>
  Claim C3. When \<^verbatim>\<open>JSON.parse\<close> rejects the data of a message delivered to an open
  stream, the handler of the component and the handler of the hook raise the
  \<^verbatim>\<open>SyntaxError\<close> before they update the state: the window is unchanged, the uncaught
  error is reported on the console, the stream stays open, and after any further events
  the window is the one it would be had the malformed message never arrived.
\<close>

theorem malformed_message_dropped:
  "parse d = None \<Longrightarrow> \<not> closed s \<Longrightarrow> \<not> hook_closed h \<Longrightarrow>
     LogStream_onmessage parse d = Inl SyntaxError
     \<and> logs (LogStream_dispatch parse s (Message d)) = logs s
     \<and> \<not> closed (LogStream_dispatch parse s (Message d))
     \<and> connected (LogStream_dispatch parse s (Message d)) = connected s
     \<and> console (LogStream_dispatch parse s (Message d)) = console s @ [Uncaught SyntaxError]
     \<and> logs (LogStream_run parse (LogStream_dispatch parse s (Message d)) evs)
         = logs (LogStream_run parse s evs)
     \<and> useLogStream_onmessage parse d = Inl SyntaxError
     \<and> hook_logs (useLogStream_dispatch parse h (Message d)) = hook_logs h
     \<and> \<not> hook_closed (useLogStream_dispatch parse h (Message d))
     \<and> hook_error (useLogStream_dispatch parse h (Message d)) = hook_error h
     \<and> hook_console (useLogStream_dispatch parse h (Message d))
         = hook_console h @ [Uncaught SyntaxError]
     \<and> hook_logs (useLogStream_run parse (useLogStream_dispatch parse h (Message d)) evs)
         = hook_logs (useLogStream_run parse h evs)"
proof -
  assume p: "parse d = None" and c: "\<not> closed s" and hc: "\<not> hook_closed h"
  note a = malformed_LogStream [of parse d s, OF p c]
  note b = malformed_useLogStream [of parse d h, OF p hc]
  have 1: "LogStream_onmessage parse d = Inl SyntaxError"
    using p by (simp add: LogStream_onmessage_def JSON_parse_def)
  have 2: "useLogStream_onmessage parse d = Inl SyntaxError"
    using p by (simp add: useLogStream_onmessage_def JSON_parse_def)
  have 3: "logs (LogStream_run parse (LogStream_dispatch parse s (Message d)) evs)
         = logs (LogStream_run parse s evs)"
    unfolding a by (rule LogStream_run_core) simp_all
  have 4: "hook_logs (useLogStream_run parse (useLogStream_dispatch parse h (Message d)) evs)
         = hook_logs (useLogStream_run parse h evs)"
    unfolding b by (rule useLogStream_run_core) simp_all
  show ?thesis using 1 2 3 4 c hc unfolding a b by simp
qed

text \<open>
  Claim C3, at a fresh component and a fresh hook: a malformed message leaves the window
  empty, and the next well-formed message is ingested.
\<close>

theorem malformed_message_dropped_witness:
  "example_parse ''{bad'' = None \<and> \<not> closed (LogStream_init :: log component)
   \<and> \<not> hook_closed (useLogStream_init :: log hook)
   \<and> logs (LogStream_dispatch example_parse LogStream_init (Message ''{bad'')) = []
   \<and> console (LogStream_dispatch example_parse LogStream_init (Message ''{bad''))
       = [Uncaught SyntaxError]
   \<and> logs (LogStream_run example_parse
              (LogStream_dispatch example_parse LogStream_init (Message ''{bad''))
              [Message ''ok'']) = [scenario_ok]
   \<and> hook_logs (useLogStream_run example_parse
              (useLogStream_dispatch example_parse useLogStream_init (Message ''{bad''))
              [Message ''ok'']) = [scenario_ok]"
proof -
  have p: "example_parse ''{bad'' = None" by (simp add: example_parse_def)
  have c: "\<not> closed (LogStream_init :: log component)" by (simp add: LogStream_init_def)
  have hc: "\<not> hook_closed (useLogStream_init :: log hook)" by (simp add: useLogStream_init_def)
  have r: "logs (LogStream_run example_parse LogStream_init [Message ''ok'']) = [scenario_ok]"
    by (simp add: LogStream_run_def LogStream_init_def LogStream_onmessage_def JSON_parse_def
        example_parse_def ingest_def slice_last_def)
  have hr: "hook_logs (useLogStream_run example_parse useLogStream_init [Message ''ok''])
            = [scenario_ok]"
    by (simp add: useLogStream_run_def useLogStream_init_def useLogStream_onmessage_def
        JSON_parse_def example_parse_def ingest_hook_def)
  have i: "logs (LogStream_init :: log component) = []" "console (LogStream_init :: log component) = []"
    by (simp_all add: LogStream_init_def)
  from malformed_message_dropped
      [of example_parse "''{bad''" LogStream_init useLogStream_init "[Message ''ok'']", OF p c hc]
    p c hc r hr i
  show ?thesis by (simp del: LogStream_dispatch.simps useLogStream_dispatch.simps)
qed

subsection \<open>The endpoint counts\<close>

lemma count_val_positive: "0 < count_val v \<Longrightarrow> v = Count (count_val v)"
  by (cases v) simp_all

lemma map_of_obj_update: "map_of (obj_update k v obj) = (map_of obj)(k \<mapsto> v)"
  by (induction obj) auto

lemma keys_obj_update: "fst ` set (obj_update k v obj) = insert k (fst ` set obj)"
  by (induction obj) auto

lemma distinct_obj_update:
  "distinct (map fst obj) \<Longrightarrow> distinct (map fst (obj_update k v obj))"
proof (induction obj)
  case Nil
  show ?case by simp
next
  case (Cons p ps)
  show ?case
  proof (cases "fst p = k")
    case True
    with Cons.prems show ?thesis by simp
  next
    case False
    have "fst p \<notin> fst ` set (obj_update k v ps)"
      using Cons.prems False by (simp add: keys_obj_update)
    with Cons False show ?thesis by simp
  qed
qed

lemma positive_obj_update:
  "positive_counts obj \<Longrightarrow> 0 < count_val v \<Longrightarrow> positive_counts (obj_update k v obj)"
  unfolding positive_counts_def by (induction obj) auto

lemma obj_update_twice: "obj_update k v (obj_update k u obj) = obj_update k v obj"
  by (induction obj) auto

lemma total_obj_update:
  "total (obj_update k v obj) + tally obj k = total obj + count_val v"
  unfolding total_def tally_def by (induction obj) auto

lemma tally_obj_update:
  "tally (obj_update k v obj) k' = (if k' = k then count_val v else tally obj k')"
  by (simp add: tally_def map_of_obj_update)

lemma positive_lookup:
  "positive_counts obj \<Longrightarrow> map_of obj k = Some v \<Longrightarrow> 0 < count_val v"
  unfolding positive_counts_def by (auto dest!: map_of_SomeD simp: list_all_iff)

lemma proto_not_clean: "k \<notin> set Object_prototype_keys \<Longrightarrow> k \<noteq> ''__proto__''"
  by (auto simp: Object_prototype_keys_def)

lemma count_endpoint_clean:
  assumes clean: "endpoint l \<notin> set Object_prototype_keys"
    and pos: "positive_counts obj"
  shows "count_endpoint obj l
         = obj_update (endpoint l) (Count (Suc (tally obj (endpoint l)))) obj"
proof (cases "map_of obj (endpoint l)")
  case None
  have np: "endpoint l \<noteq> ''__proto__''" using clean by (rule proto_not_clean)
  have g: "obj_get obj (endpoint l) = Undefined"
    using None clean by (simp add: obj_get_def)
  have g': "obj_get (obj_update (endpoint l) (Count 0) obj) (endpoint l) = OwnValue (Count 0)"
    by (simp add: obj_get_def map_of_obj_update)
  have t: "tally obj (endpoint l) = 0" using None by (simp add: tally_def)
  show ?thesis
    using np by (simp add: count_endpoint_def Let_def g obj_set_def g' t obj_update_twice)
next
  case (Some v)
  have np: "endpoint l \<noteq> ''__proto__''" using clean by (rule proto_not_clean)
  have "0 < count_val v" using pos Some by (rule positive_lookup)
  then obtain n where v: "v = Count (Suc n)"
    by (cases v) (auto simp: gr0_conv_Suc)
  have g: "obj_get obj (endpoint l) = OwnValue (Count (Suc n))"
    using Some v by (simp add: obj_get_def)
  have t: "tally obj (endpoint l) = Suc n" using Some v by (simp add: tally_def)
  show ?thesis
    using np by (simp add: count_endpoint_def Let_def g obj_set_def t)
qed

lemma endpointMap_fold:
  assumes "list_all (\<lambda>l. endpoint l \<notin> set Object_prototype_keys) w"
    and "positive_counts obj" and "distinct (map fst obj)"
  shows "positive_counts (foldl count_endpoint obj w)
     \<and> distinct (map fst (foldl count_endpoint obj w))
     \<and> total (foldl count_endpoint obj w) = total obj + length w
     \<and> (\<forall>k. tally (foldl count_endpoint obj w) k
              = tally obj k + count_list (map endpoint w) k)"
  using assms
proof (induction w arbitrary: obj)
  case Nil
  then show ?case by simp
next
  case (Cons l w)
  let ?obj = "obj_update (endpoint l) (Count (Suc (tally obj (endpoint l)))) obj"
  have clean: "endpoint l \<notin> set Object_prototype_keys" using Cons.prems(1) by simp
  have rest: "list_all (\<lambda>l. endpoint l \<notin> set Object_prototype_keys) w"
    using Cons.prems(1) by simp
  have step: "count_endpoint obj l = ?obj"
    using clean Cons.prems(2) by (rule count_endpoint_clean)
  have p: "positive_counts ?obj" using Cons.prems(2) by (rule positive_obj_update) simp
  have d: "distinct (map fst ?obj)" using Cons.prems(3) by (rule distinct_obj_update)
  have tot: "total ?obj = total obj + 1"
    using total_obj_update [of "endpoint l" "Count (Suc (tally obj (endpoint l)))" obj] by simp
  have tal: "tally ?obj k = tally obj k + (if endpoint l = k then 1 else 0)" for k
    by (simp add: tally_obj_update)
  from Cons.IH [OF rest p d] show ?case
    by (simp add: step tot tal)
qed

lemma endpointMap_counts:
  assumes "list_all (\<lambda>l. endpoint l \<notin> set Object_prototype_keys) w"
  shows "positive_counts (endpointMap w)"
    and "distinct (map fst (endpointMap w))"
    and "total (endpointMap w) = length w"
    and "tally (endpointMap w) k = count_list (map endpoint w) k"
proof -
  have p: "positive_counts []" by (simp add: positive_counts_def)
  have d: "distinct (map fst ([] :: jsobj))" by simp
  note f = endpointMap_fold [OF assms p d, folded endpointMap_def]
  from f show "positive_counts (endpointMap w)" by blast
  from f show "distinct (map fst (endpointMap w))" by blast
  from f show "total (endpointMap w) = length w" by (simp add: total_def)
  from f show "tally (endpointMap w) k = count_list (map endpoint w) k"
    by (simp add: tally_def)
qed

lemma count_list_pos: "0 < count_list xs x \<longleftrightarrow> x \<in> set xs"
  using count_list_0_iff [of xs x] by auto

lemma mset_Object_entries: "mset (Object_entries obj) = mset obj"
  by (simp add: Object_entries_def)

lemma set_Object_entries: "set (Object_entries obj) = set obj"
  using mset_Object_entries [of obj] by (rule mset_eq_setD)

lemma js_sum_foldl:
  "foldl js_add a vs
   = (if a = NaN \<or> NaN \<in> set vs then NaN else Count (count_val a + sum_list (map count_val vs)))"
proof (induction vs arbitrary: a)
  case Nil
  show ?case by (cases a) simp_all
next
  case (Cons v vs)
  show ?case by (cases a; cases v) (simp_all add: Cons.IH)
qed

lemma js_sum_positive:
  assumes "positive_counts obj"
  shows "js_sum (map snd obj) = Count (total obj)"
proof -
  have "NaN \<notin> snd ` set obj"
    using assms by (force simp: positive_counts_def list_all_iff)
  then show ?thesis
    by (simp add: js_sum_def js_sum_foldl total_def comp_def)
qed

lemma positive_counts_mset:
  "mset obj' = mset obj \<Longrightarrow> positive_counts obj \<Longrightarrow> positive_counts obj'"
  by (auto simp: positive_counts_def list_all_iff dest: mset_eq_setD)

lemma total_mset: "mset obj' = mset obj \<Longrightarrow> total obj' = total obj"
proof -
  assume "mset obj' = mset obj"
  then have "mset (map (\<lambda>p. count_val (snd p)) obj') = mset (map (\<lambda>p. count_val (snd p)) obj)"
    by (metis mset_map)
  then have "sum_mset (mset (map (\<lambda>p. count_val (snd p)) obj'))
             = sum_mset (mset (map (\<lambda>p. count_val (snd p)) obj))" by simp
  then show ?thesis by (simp only: total_def sum_mset_sum_list)
qed

lemma request_path_not_inherited:
  "e \<noteq> [] \<Longrightarrow> hd e = CHR ''/'' \<Longrightarrow> e \<notin> set Object_prototype_keys"
  by (auto simp: Object_prototype_keys_def)

text \<open>
  Claim C10, evaluated on a window that holds the endpoint \<^verbatim>\<open>constructor\<close> once: the
  read \<^verbatim>\<open>endpointMap['constructor']\<close> finds the inherited function, which is truthy, so
  the count is not initialised and \<^verbatim>\<open>++\<close> stores \<^verbatim>\<open>NaN\<close>. The entry of the endpoint is
  not a count of at least 1, and the values do not sum to the window length.
\<close>

theorem endpoints_inherited_name_counterexample:
  "endpoints [constructor_event] = [(''constructor'', NaN)]
   \<and> js_sum (map snd (endpoints [constructor_event])) \<noteq> Count (length [constructor_event])"
  by code_simp

text \<open>
  Claim C10 holds on every window in which no endpoint is the name of a property of
  \<^verbatim>\<open>Object.prototype\<close> (every request path, which begins with a slash, is such an
  endpoint): \<^verbatim>\<open>endpoints\<close> holds for each endpoint of the window an entry with its
  number of occurrences, which is at least 1; the values sum to the window length; the
  keys are exactly the endpoints of the window, each once.
\<close>

theorem endpoints_counts:
  assumes "list_all (\<lambda>l. endpoint l \<notin> set Object_prototype_keys) w"
  shows "(\<forall>e \<in> endpoint ` set w.
            (e, Count (count_list (map endpoint w) e)) \<in> set (endpoints w)
            \<and> 1 \<le> count_list (map endpoint w) e)
     \<and> js_sum (map snd (endpoints w)) = Count (length w)
     \<and> fst ` set (endpoints w) = endpoint ` set w
     \<and> distinct (map fst (endpoints w))"
proof -
  note c = endpointMap_counts [OF assms]
  have m: "mset (endpoints w) = mset (endpointMap w)"
    by (simp add: endpoints_def mset_Object_entries)
  have s: "set (endpoints w) = set (endpointMap w)"
    by (simp add: endpoints_def set_Object_entries)
  have present: "(e, Count (count_list (map endpoint w) e)) \<in> set (endpointMap w)
                 \<and> 1 \<le> count_list (map endpoint w) e"
    if "e \<in> endpoint ` set w" for e
  proof -
    from that have "e \<in> set (map endpoint w)" by simp
    then have pos: "0 < count_list (map endpoint w) e"
      by (simp only: count_list_pos)
    with c(4) [of e] obtain v where v: "map_of (endpointMap w) e = Some v"
      and cv: "count_val v = count_list (map endpoint w) e"
      by (auto simp: tally_def split: option.splits)
    from cv pos have "v = Count (count_list (map endpoint w) e)"
      using count_val_positive [of v] by simp
    with v have "(e, Count (count_list (map endpoint w) e)) \<in> set (endpointMap w)"
      by (auto dest: map_of_SomeD)
    with pos show ?thesis by simp
  qed
  have keys: "fst ` set (endpointMap w) = endpoint ` set w"
  proof (intro equalityI subsetI)
    fix k assume "k \<in> fst ` set (endpointMap w)"
    then obtain v where v: "map_of (endpointMap w) k = Some v"
      by (metis domD dom_map_of_conv_image_fst)
    then have "0 < count_val v" using c(1) positive_lookup by blast
    with v c(4) [of k] have "0 < count_list (map endpoint w) k" by (simp add: tally_def)
    then have "k \<in> set (map endpoint w)"
      by (simp only: count_list_pos)
    then show "k \<in> endpoint ` set w" by simp
  next
    fix k assume "k \<in> endpoint ` set w"
    from present [OF this] show "k \<in> fst ` set (endpointMap w)" by force
  qed
  have sum: "js_sum (map snd (endpoints w)) = Count (length w)"
  proof -
    have "positive_counts (endpoints w)" using m c(1) by (rule positive_counts_mset)
    then have "js_sum (map snd (endpoints w)) = Count (total (endpoints w))"
      by (rule js_sum_positive)
    also have "total (endpoints w) = total (endpointMap w)" using m by (rule total_mset)
    finally show ?thesis by (simp add: c(3))
  qed
  have dist: "distinct (map fst (endpoints w))"
  proof -
    have "mset (map fst (endpoints w)) = mset (map fst (endpointMap w))"
      using m by (metis mset_map)
    then show ?thesis using c(2) by (metis mset_eq_imp_distinct_iff)
  qed
  from present sum keys dist show ?thesis by (simp add: s)
qed

text \<open>
  The endpoint counts at the window of the two scenario events and the fast error:
  \<^verbatim>\<open>/a\<close> is counted twice and \<^verbatim>\<open>/b\<close> once.
\<close>

theorem endpoints_counts_witness:
  "list_all (\<lambda>l. endpoint l \<notin> set Object_prototype_keys) [scenario_ok, scenario_err, fast_err]
   \<and> (''/a'', Count (count_list (map endpoint [scenario_ok, scenario_err, fast_err]) ''/a''))
       \<in> set (endpoints [scenario_ok, scenario_err, fast_err])
   \<and> js_sum (map snd (endpoints [scenario_ok, scenario_err, fast_err]))
       = Count (length [scenario_ok, scenario_err, fast_err])
   \<and> fst ` set (endpoints [scenario_ok, scenario_err, fast_err])
       = endpoint ` set [scenario_ok, scenario_err, fast_err]
   \<and> endpoints [scenario_ok, scenario_err, fast_err] = [(''/a'', Count 2), (''/b'', Count 1)]"
proof -
  have h: "list_all (\<lambda>l. endpoint l \<notin> set Object_prototype_keys)
             [scenario_ok, scenario_err, fast_err]"
    by (simp add: Object_prototype_keys_def scenario_ok_def scenario_err_def fast_err_def)
  have a: "''/a'' \<in> endpoint ` set [scenario_ok, scenario_err, fast_err]"
    by (simp add: scenario_ok_def)
  have v: "endpoints [scenario_ok, scenario_err, fast_err] = [(''/a'', Count 2), (''/b'', Count 1)]"
    by code_simp
  from endpoints_counts [OF h] a h v show ?thesis by blast
qed


section \<open>Proofs about the Express service\<close>

lemma relay_run_Nil: "relay_run s [] = s"
  by (simp add: relay_run_def)

lemma relay_run_Cons: "relay_run s (e # evs) = relay_run (relay_step s e) evs"
  by (simp add: relay_run_def)

lemma upstreams_on_response: "upstreams (on_response f r s) = upstreams s"
  by (simp add: on_response_def split: option.splits)

lemma responses_on_response_other:
  "r' \<noteq> r \<Longrightarrow> responses (on_response f r s) r' = responses s r'"
  by (simp add: on_response_def split: option.splits)

lemma responses_on_response_same:
  "responses (on_response f r s) r = map_option f (responses s r)"
  by (simp add: on_response_def split: option.splits)

lemma length_upstreams_step:
  "length (upstreams (relay_step s e)) = length (upstreams s) + (if attached e then 1 else 0)"
  by (cases e) (simp_all add: upstreams_on_response set_state_def)

lemma length_upstreams_run:
  "length (upstreams (relay_run s evs)) = length (upstreams s) + length (filter attached evs)"
proof (induction evs arbitrary: s)
  case Nil
  show ?case by (simp add: relay_run_Nil)
next
  case (Cons e evs)
  show ?case by (simp add: relay_run_Cons Cons.IH length_upstreams_step)
qed

lemma data_frame:
  "r \<noteq> owner (upstreams s ! u) \<Longrightarrow> responses (relay_step s (UpstreamData u c)) r = responses s r"
  by (auto simp: responses_on_response_other)

lemma owners_set_state: "map owner (upstreams (set_state u st s)) = map owner (upstreams s)"
proof (rule nth_equalityI)
  show "length (map owner (upstreams (set_state u st s))) = length (map owner (upstreams s))"
    by (simp add: set_state_def)
next
  fix i assume "i < length (map owner (upstreams (set_state u st s)))"
  then have i: "i < length (upstreams s)" by (simp add: set_state_def)
  show "map owner (upstreams (set_state u st s)) ! i = map owner (upstreams s) ! i"
  proof (cases "i = u")
    case True
    with i show ?thesis by (simp add: set_state_def)
  next
    case False
    with i show ?thesis by (simp add: set_state_def)
  qed
qed

lemma owners_step:
  "map owner (upstreams (relay_step s e)) = map owner (upstreams s) @ attached_ids [e]"
proof (cases e)
  case (Request r ok)
  then show ?thesis by simp
next
  case (UpstreamData u c)
  then show ?thesis by (simp add: upstreams_on_response)
next
  case (UpstreamError u)
  then show ?thesis
    by (simp add: upstreams_on_response owners_set_state)
next
  case (UpstreamEnd u)
  then show ?thesis by (simp add: owners_set_state)
next
  case (ClientClose r)
  then show ?thesis by (simp add: comp_def)
qed

lemma attached_ids_Cons: "attached_ids (e # evs) = attached_ids [e] @ attached_ids evs"
  by (cases e) simp_all

lemma owners_run:
  "map owner (upstreams (relay_run s evs)) = map owner (upstreams s) @ attached_ids evs"
proof (induction evs arbitrary: s)
  case Nil
  show ?case by (simp add: relay_run_Nil)
next
  case (Cons e evs)
  have "map owner (upstreams (relay_run s (e # evs)))
        = (map owner (upstreams s) @ attached_ids [e]) @ attached_ids evs"
    by (simp only: relay_run_Cons Cons.IH owners_step)
  then show ?case by (simp only: append_assoc attached_ids_Cons [symmetric])
qed

text \<open>
  Claim C4 as stated fails: two attached clients give two upstream connections, and a
  chunk of the first upstream reaches the first client only.
\<close>

theorem one_upstream_per_request_counterexample:
  "length (upstreams (relay_run relay_init
            [Request 1 True, Request 2 True, UpstreamData 0 ''x''])) = 2
   \<and> map_option body (responses (relay_run relay_init
            [Request 1 True, Request 2 True, UpstreamData 0 ''x'']) 1) = Some [''x'']
   \<and> map_option body (responses (relay_run relay_init
            [Request 1 True, Request 2 True, UpstreamData 0 ''x'']) 2) = Some []"
  by (simp add: relay_run_def relay_init_def flowing_def on_response_def res_write_def)

text \<open>
  Claim C4, amended. The service opens one upstream connection per successfully attached
  request: a successful request appends an upstream owned by that request, and after any
  events the owners of the upstream connections, in the order opened, are the
  identifiers of the requests whose connection succeeded, so there are as many upstreams
  as attached requests. A chunk of an upstream is written to the response of the request
  that owns it, and to no other response.
\<close>

theorem upstream_per_attached_request:
  "map owner (upstreams (relay_run relay_init evs)) = attached_ids evs
   \<and> length (upstreams (relay_run relay_init evs)) = length (filter attached evs)
   \<and> upstreams (relay_step s (Request r True)) = upstreams s @ [\<lparr>owner = r, state = Flowing\<rparr>]
   \<and> (r' \<noteq> owner (upstreams s ! u) \<longrightarrow>
        responses (relay_step s (UpstreamData u c)) r' = responses s r')
   \<and> (flowing s u \<longrightarrow>
        responses (relay_step s (UpstreamData u c)) (owner (upstreams s ! u))
          = map_option (res_write c) (responses s (owner (upstreams s ! u))))"
proof -
  have "map owner (upstreams (relay_run relay_init evs)) = attached_ids evs"
    by (simp add: owners_run relay_init_def)
  moreover have "length (upstreams (relay_run relay_init evs)) = length (filter attached evs)"
    by (simp add: length_upstreams_run relay_init_def)
  moreover have "upstreams (relay_step s (Request r True))
                 = upstreams s @ [\<lparr>owner = r, state = Flowing\<rparr>]"
    by simp
  moreover have "r' \<noteq> owner (upstreams s ! u) \<longrightarrow>
        responses (relay_step s (UpstreamData u c)) r' = responses s r'"
    by (rule impI) (rule data_frame)
  moreover have "flowing s u \<longrightarrow>
        responses (relay_step s (UpstreamData u c)) (owner (upstreams s ! u))
          = map_option (res_write c) (responses s (owner (upstreams s ! u)))"
    by (simp add: responses_on_response_same)
  ultimately show ?thesis by blast
qed

text \<open>
  Claim C4, amended, at two successful requests and one failed one: two upstreams, owned
  by the first and the second request, and a chunk of the first upstream leaves the
  response of the second request unchanged.
\<close>

theorem upstream_per_attached_request_witness:
  "map owner (upstreams (relay_run relay_init [Request 1 True, Request 2 True, Request 3 False]))
     = [1, 2]
   \<and> attached_ids [Request 1 True, Request 2 True, Request 3 False] = [1, 2]
   \<and> length (upstreams (relay_run relay_init [Request 1 True, Request 2 True, Request 3 False]))
     = length (filter attached [Request 1 True, Request 2 True, Request 3 False])
   \<and> 2 \<noteq> owner (upstreams two_attached ! 0)
   \<and> responses (relay_step two_attached (UpstreamData 0 ''x'')) 2 = responses two_attached 2
   \<and> flowing two_attached 0
   \<and> responses (relay_step two_attached (UpstreamData 0 ''x'')) (owner (upstreams two_attached ! 0))
       = map_option (res_write ''x'') (responses two_attached (owner (upstreams two_attached ! 0)))"
proof -
  have a: "attached_ids [Request 1 True, Request 2 True, Request 3 False] = [1, 2]" by simp
  have o: "2 \<noteq> owner (upstreams two_attached ! 0)"
    by (simp add: two_attached_def relay_run_def relay_init_def)
  have f: "flowing two_attached 0"
    by (simp add: two_attached_def relay_run_def relay_init_def flowing_def)
  from upstream_per_attached_request
         [of "[Request 1 True, Request 2 True, Request 3 False]" two_attached 1 2 0 "''x''"] a o f
  show ?thesis by simp
qed

text \<open>
  Claim C5, evaluated: when the upstream of a request ends, the response of that request
  stays open with the chunks written so far, because no listener is registered for the
  end of the upstream; when the upstream errors, the response is ended.
\<close>

theorem upstream_end_leaves_response_open:
  "responses (relay_run relay_init [Request 1 True, UpstreamData 0 ''x'', UpstreamEnd 0]) 1
     = Some \<lparr>http_status = 200, body = [''x''], ended = False\<rparr>
   \<and> responses (relay_run relay_init [Request 1 True, UpstreamData 0 ''x'', UpstreamError 0]) 1
     = Some \<lparr>http_status = 200, body = [''x''], ended = True\<rparr>"
  by (simp add: relay_run_def relay_init_def flowing_def on_response_def res_write_def
      res_end_def set_state_def)










lemma owner_set_state:
  "u < length (upstreams s) \<Longrightarrow> owner (upstreams (set_state u st s) ! u) = owner (upstreams s ! u)"
  by (simp add: set_state_def)








end
